theory Spec2Isabelle
  imports Complex_Main "HOL-Library.Word" "HOL-Library.Signed_Division"
begin

section \<open>Numeric approximation library (CALCULATOR.cpp)\<close>

text \<open>
  The C++ type \<open>double\<close> is modelled by \<^typ>\<open>real\<close>: the arithmetic is exact, so
  rounding, overflow to infinity and underflow are abstracted away. \<open>mySqrt\<close> is the one
  function that divides by a computed value; it is modelled over a value type with the
  special values of IEEE 754, so that a zero divisor has the result the machine gives it.
  An \<open>int\<close> counter is modelled by \<^typ>\<open>int\<close> where the loop bounds keep it inside the
  32-bit range; the \<open>long\<close> accumulator of \<open>fact\<close> is a 64-bit word, whose product
  wraps. What a function writes to \<open>cout\<close> is returned as a string beside its value. A
  loop that does not terminate on every input is a partial function into
  \<^typ>\<open>'a option\<close>, where \<open>None\<close> means that the call does not return.
\<close>

subsection \<open>Constants\<close>

definition e_const :: real where
  "e_const = 2718281828 / 1000000000"

subsection \<open>power, abso, fact\<close>

text \<open>
  \<^verbatim>\<open>double res = 1; for (int i = 0; i < p; i++) res *= num; return res;\<close>
  The counter \<open>i\<close> never exceeds \<open>p\<close>, so it cannot overflow.
\<close>

function power_loop :: "real \<Rightarrow> int \<Rightarrow> int \<Rightarrow> real \<Rightarrow> real" where
  "power_loop num p i res = (if i < p then power_loop num p (i + 1) (res * num) else res)"
  by pat_completeness auto
termination
  by (relation "measure (\<lambda>(num, p, i, res). nat (p - i))") auto

definition power_fn :: "real \<Rightarrow> int \<Rightarrow> real" where
  "power_fn num p = power_loop num p 0 1"

definition abso :: "real \<Rightarrow> real" where
  "abso x = (if x < 0 then - x else x)"

text \<open>
  \<^verbatim>\<open>long pro = 1; while (x > 1) { pro *= x; x--; } return pro;\<close>
  \<open>x\<close> only decreases towards 1; \<open>pro\<close> is a 64-bit \<open>long\<close> and its product wraps.
\<close>

function fact_loop :: "int \<Rightarrow> 64 word \<Rightarrow> 64 word" where
  "fact_loop x pro = (if x > 1 then fact_loop (x - 1) (pro * word_of_int x) else pro)"
  by pat_completeness auto
termination
  by (relation "measure (\<lambda>(x, pro). nat x)") auto

definition fact_fn :: "int \<Rightarrow> 64 word" where
  "fact_fn x = fact_loop x 1"

subsection \<open>hasDecimal\<close>

text \<open>
  The cast \<open>(int)num\<close> drops the fractional part (rounding towards zero). C++ defines
  it only when the truncated value fits the 32-bit \<open>int\<close>; outside that range the
  conversion has no defined result, which the model records as \<open>None\<close>.
\<close>

definition trunc :: "real \<Rightarrow> int" where
  "trunc x = (if 0 \<le> x then \<lfloor>x\<rfloor> else \<lceil>x\<rceil>)"

definition to_int :: "real \<Rightarrow> int option" where
  "to_int num =
     (if - (2 ^ 31) \<le> trunc num \<and> trunc num < 2 ^ 31 then Some (trunc num) else None)"

definition hasDecimal :: "real \<Rightarrow> bool option" where
  "hasDecimal num =
     (case to_int num of
        None \<Rightarrow> None
      | Some n \<Rightarrow> Some (abso (num - of_int n) > 1 / 10 ^ 9))"

subsection \<open>lnNear1 and ln\<close>

text \<open>
  \<^verbatim>\<open>do { double sign = (cnt % 2 == 0) ? -1 : 1;
       y = sign * power(z, cnt) / cnt; result += y; cnt++;
  } while (abso(y) > 1e-10);\<close>
  The loop ends only when a term is small enough, so it is a partial function.
\<close>

partial_function (option) lnNear1_loop :: "real \<Rightarrow> int \<Rightarrow> real \<Rightarrow> real option" where
  "lnNear1_loop z cnt result =
     (let sign = (if cnt smod 2 = 0 then - 1 else 1);
          y = sign * power_fn z cnt / of_int cnt;
          result' = result + y;
          cnt' = cnt + 1
      in if abso y > 1 / 10 ^ 10 then lnNear1_loop z cnt' result' else Some result')"

definition lnNear1 :: "real \<Rightarrow> real option" where
  "lnNear1 cnum = lnNear1_loop (cnum - 1) 1 0"

text \<open>\<^verbatim>\<open>while (num > 1.5) { num /= e; k++; }\<close> ends on every input.\<close>

function ln_down :: "real \<Rightarrow> int \<Rightarrow> real \<times> int" where
  "ln_down num k = (if num > 3 / 2 then ln_down (num / e_const) (k + 1) else (num, k))"
  by pat_completeness auto
termination
proof (relation "measure (\<lambda>(num, k). nat \<lceil>2 * num\<rceil>)")
  show "wf (measure (\<lambda>(num, k). nat \<lceil>2 * num\<rceil>))" by simp
next
  fix num :: real and k :: int
  assume a: "3 / 2 < num"
  have "2 * (num / e_const) \<le> 2 * num - 1"
    using a by (simp add: e_const_def field_simps)
  then have "\<lceil>2 * (num / e_const)\<rceil> \<le> \<lceil>2 * num - 1\<rceil>"
    by (rule ceiling_mono)
  also have "\<dots> = \<lceil>2 * num\<rceil> - 1" by simp
  finally have "\<lceil>2 * (num / e_const)\<rceil> < \<lceil>2 * num\<rceil>" by simp
  moreover have "0 < \<lceil>2 * num\<rceil>" using a by (simp add: ceiling_less_iff less_ceiling_iff)
  ultimately show "((num / e_const, k + 1), (num, k)) \<in> measure (\<lambda>(num, k). nat \<lceil>2 * num\<rceil>)"
    by simp
qed

text \<open>
  \<^verbatim>\<open>while (num < 0.5) { num *= e; k--; }\<close> runs forever when \<open>num \<le> 0\<close>, so it
  is a partial function; \<open>ln\<close> reaches it with a positive \<open>num\<close> only.
\<close>

partial_function (option) ln_up :: "real \<Rightarrow> int \<Rightarrow> (real \<times> int) option" where
  "ln_up num k = (if num < 1 / 2 then ln_up (num * e_const) (k - 1) else Some (num, k))"

definition ln_fn :: "real \<Rightarrow> (string \<times> real) option" where
  "ln_fn num =
     (if num = 0 then Some (''NOT DEFINED'', 0)
      else if num < 0 then Some (''Invalid Input'', 0)
      else case ln_down num 0 of (num1, k1) \<Rightarrow>
        (case ln_up num1 k1 of
           None \<Rightarrow> None
         | Some (num2, k2) \<Rightarrow>
             (case lnNear1 num2 of
                None \<Rightarrow> None
              | Some t \<Rightarrow> Some ([], of_int k2 + t))))"

subsection \<open>mySqrt\<close>

text \<open>
  The values of a \<open>double\<close> for \<open>mySqrt\<close>: a finite number (kept exact), the two
  infinities and NaN. The sign of a zero is not kept: a zero divisor counts as \<open>+0\<close>.
\<close>

datatype double = Finite real | PInf | MInf | NaN

fun dless :: "double \<Rightarrow> double \<Rightarrow> bool" where
  "dless NaN _ = False"
| "dless _ NaN = False"
| "dless (Finite a) (Finite b) = (a < b)"
| "dless (Finite a) PInf = True"
| "dless (Finite a) MInf = False"
| "dless PInf _ = False"
| "dless MInf MInf = False"
| "dless MInf _ = True"

fun dadd :: "double \<Rightarrow> double \<Rightarrow> double" where
  "dadd NaN _ = NaN"
| "dadd _ NaN = NaN"
| "dadd (Finite a) (Finite b) = Finite (a + b)"
| "dadd PInf MInf = NaN"
| "dadd MInf PInf = NaN"
| "dadd PInf _ = PInf"
| "dadd _ PInf = PInf"
| "dadd MInf _ = MInf"
| "dadd _ MInf = MInf"

fun ddiv :: "double \<Rightarrow> double \<Rightarrow> double" where
  "ddiv NaN _ = NaN"
| "ddiv _ NaN = NaN"
| "ddiv (Finite a) (Finite b) =
     (if b = 0 then (if a = 0 then NaN else if 0 < a then PInf else MInf)
      else Finite (a / b))"
| "ddiv (Finite a) _ = Finite 0"
| "ddiv PInf (Finite b) = (if 0 \<le> b then PInf else MInf)"
| "ddiv MInf (Finite b) = (if 0 \<le> b then MInf else PInf)"
| "ddiv _ _ = NaN"

text \<open>One Newton-Raphson step, \<^verbatim>\<open>guess = (guess + x / guess) / 2.0\<close>.\<close>

definition newton_step :: "double \<Rightarrow> double \<Rightarrow> double" where
  "newton_step x guess = ddiv (dadd guess (ddiv x guess)) (Finite 2)"

text \<open>\<^verbatim>\<open>for (int i = 0; i < 100; i++) guess = (guess + x / guess) / 2.0;\<close>\<close>

function sqrt_loop :: "double \<Rightarrow> int \<Rightarrow> double \<Rightarrow> double" where
  "sqrt_loop x i guess =
     (if i < 100 then sqrt_loop x (i + 1) (newton_step x guess) else guess)"
  by pat_completeness auto
termination
  by (relation "measure (\<lambda>(x, i, guess). nat (100 - i))") auto

definition mySqrt :: "double \<Rightarrow> string \<times> double" where
  "mySqrt x =
     (if dless x (Finite 0)
      then (''Error: Square root of negative number!'' @ [CHR 0x0A], Finite 0)
      else ([], sqrt_loop x 0 (ddiv x (Finite 2))))"

text \<open>
  The same function with every division guarded: a zero divisor is a fault of its own
  instead of a value, which tells whether the loop ever divides by zero.
\<close>

datatype fault = DivisionByZero

definition checked_div :: "real \<Rightarrow> real \<Rightarrow> fault + real" where
  "checked_div a b = (if b = 0 then Inl DivisionByZero else Inr (a / b))"

function sqrt_loop_checked :: "real \<Rightarrow> int \<Rightarrow> real \<Rightarrow> fault + real" where
  "sqrt_loop_checked x i guess =
     (if i < 100 then
        (case checked_div x guess of
           Inl f \<Rightarrow> Inl f
         | Inr q \<Rightarrow> sqrt_loop_checked x (i + 1) ((guess + q) / 2))
      else Inr guess)"
  by pat_completeness auto
termination
  by (relation "measure (\<lambda>(x, i, guess). nat (100 - i))") auto

definition mySqrt_checked :: "real \<Rightarrow> string \<times> (fault + real)" where
  "mySqrt_checked x =
     (if x < 0
      then (''Error: Square root of negative number!'' @ [CHR 0x0A], Inr 0)
      else ([], sqrt_loop_checked x 0 (x / 2)))"

subsection \<open>The specification's vocabulary for the logarithm\<close>

text \<open>The \<open>n\<close>-th term of the alternating series \<open>\<Sum> (-1)^(n+1) z^n / n\<close>.\<close>

definition taylor_term :: "real \<Rightarrow> nat \<Rightarrow> real" where
  "taylor_term z n = (- 1) ^ (n + 1) * z ^ n / real n"

section \<open>Caesar cipher (Ceaser_Cipher.cpp)\<close>

text \<open>
  A \<open>char\<close> is compared and shifted through its character code, as C++ does after
  promoting it to \<open>int\<close>; \<open>%\<close> is the truncating remainder \<open>smod\<close>.
\<close>

definition code :: "char \<Rightarrow> int" where
  "code ch = of_char ch"

definition lower_case :: "char \<Rightarrow> bool" where
  "lower_case ch \<longleftrightarrow> code CHR ''a'' \<le> code ch \<and> code ch \<le> code CHR ''z''"

definition upper_case :: "char \<Rightarrow> bool" where
  "upper_case ch \<longleftrightarrow> code CHR ''A'' \<le> code ch \<and> code ch \<le> code CHR ''Z''"

definition shift_char :: "int \<Rightarrow> char \<Rightarrow> char" where
  "shift_char sv ch =
     (if lower_case ch then
        char_of (code CHR ''a'' + (code ch - code CHR ''a'' + sv + 26) smod 26)
      else if upper_case ch then
        char_of (code CHR ''A'' + (code ch - code CHR ''A'' + sv + 26) smod 26)
      else ch)"

text \<open>\<^verbatim>\<open>for (char ch : ip) { ...; op += ch; }\<close>\<close>

fun encode_loop :: "int \<Rightarrow> string \<Rightarrow> string \<Rightarrow> string" where
  "encode_loop sv [] op = op"
| "encode_loop sv (ch # rest) op = encode_loop sv rest (op @ [shift_char sv ch])"

text \<open>The program: the shift is normalised by \<^verbatim>\<open>sv = sv % 26\<close>, then the line is coded.\<close>

definition ceaser_cipher :: "int \<Rightarrow> string \<Rightarrow> string" where
  "ceaser_cipher sv ip = encode_loop (sv smod 26) ip []"

section \<open>Brute-force breaker (Level2.cpp)\<close>



text \<open>
  The loops below run over \<open>cipher[0 .. len - 1]\<close>, passed on as the list \<open>cipher\<close>.
  \<open>bestText\<close> starts uninitialised: \<open>None\<close>.
\<close>

definition is_vowel :: "char \<Rightarrow> bool" where
  "is_vowel newChar \<longleftrightarrow>
     newChar = CHR ''a'' \<or> newChar = CHR ''e'' \<or> newChar = CHR ''i'' \<or>
     newChar = CHR ''o'' \<or> newChar = CHR ''u''"

record search =
  bestShift :: int
  bestScore :: int
  bestText :: "string option"

text \<open>The inner loop: decodes every character and counts the vowels it produces.\<close>

fun decode_loop :: "int \<Rightarrow> string \<Rightarrow> string \<Rightarrow> int \<Rightarrow> string \<times> int" where
  "decode_loop shift [] decoded vowelCount = (decoded, vowelCount)"
| "decode_loop shift (ch # rest) decoded vowelCount =
     (if lower_case ch then
        (let newChar = char_of ((code ch - code CHR ''a'' - shift + 26) smod 26 + code CHR ''a'')
         in decode_loop shift rest (decoded @ [newChar])
              (if is_vowel newChar then vowelCount + 1 else vowelCount))
      else decode_loop shift rest (decoded @ [ch]) vowelCount)"

text \<open>The body of the outer loop for one shift: decode, then keep the better candidate.\<close>

definition try_shift :: "string \<Rightarrow> int \<Rightarrow> search \<Rightarrow> search" where
  "try_shift cipher shift st =
     (case decode_loop shift cipher [] 0 of (decoded, vowelCount) \<Rightarrow>
        if vowelCount > bestScore st
        then st\<lparr>bestScore := vowelCount, bestShift := shift, bestText := Some decoded\<rparr>
        else st)"

text \<open>\<^verbatim>\<open>for (int shift = 1; shift <= 25; shift++) { ... }\<close>\<close>

function shift_loop :: "string \<Rightarrow> int \<Rightarrow> search \<Rightarrow> search" where
  "shift_loop cipher shift st =
     (if shift \<le> 25 then shift_loop cipher (shift + 1) (try_shift cipher shift st) else st)"
  by pat_completeness auto
termination
  by (relation "measure (\<lambda>(cipher, shift, st). nat (26 - shift))") auto


subsection \<open>The specification's vocabulary for the search\<close>







declare power_loop.simps [simp del] fact_loop.simps [simp del] shift_loop.simps [simp del]
  ln_down.simps [simp del] sqrt_loop.simps [simp del] sqrt_loop_checked.simps [simp del]

section \<open>Properties of power and fact\<close>

lemma power_loop_eq:
  "i \<le> p \<Longrightarrow> power_loop num p i res = res * num ^ nat (p - i)"
proof (induction num p i res rule: power_loop.induct)
  case (1 num p i res)
  show ?case
  proof (cases "i < p")
    case True
    then have "nat (p - i) = Suc (nat (p - (i + 1)))" by simp
    with True "1.IH" show ?thesis
      by (subst power_loop.simps) (simp add: mult.assoc)
  next
    case False
    with "1.prems" have "i = p" by simp
    then show ?thesis by (subst power_loop.simps) simp
  qed
qed

lemma power_loop_funpow:
  "i \<le> p \<Longrightarrow> power_loop num p i res = ((\<lambda>r. r * num) ^^ nat (p - i)) res"
proof (induction num p i res rule: power_loop.induct)
  case (1 num p i res)
  show ?case
  proof (cases "i < p")
    case True
    then have "nat (p - i) = Suc (nat (p - (i + 1)))" by simp
    with True "1.IH" show ?thesis
      by (subst power_loop.simps) (simp add: funpow_Suc_right del: funpow.simps)
  next
    case False
    with "1.prems" have "i = p" by simp
    then show ?thesis by (subst power_loop.simps) simp
  qed
qed

lemma power_fn_nat: "0 \<le> p \<Longrightarrow> power_fn b p = b ^ nat p"
  using power_loop_eq [where i = 0 and p = p and num = b and res = 1]
  by (simp add: power_fn_def)

text \<open>
  C7. \<open>power(b, 0)\<close> is 1 for every base, zero included, and for an exponent \<open>p \<ge> 0\<close>
  the loop multiplies the accumulator, started at 1, by \<open>b\<close> exactly \<open>p\<close> times:
  the result is the product of \<open>p\<close> copies of \<open>b\<close>.
\<close>

theorem power_nonneg_exponent:
  "power_fn b 0 = 1 \<and> power_fn 0 0 = 1 \<and>
   (0 \<le> p \<longrightarrow> power_fn b p = ((\<lambda>res. res * b) ^^ nat p) 1
                \<and> power_fn b p = prod_list (replicate (nat p) b))"
proof -
  have "power_fn b 0 = 1" for b
    unfolding power_fn_def by (subst power_loop.simps) simp
  moreover have "power_fn b p = ((\<lambda>res. res * b) ^^ nat p) 1" if "0 \<le> p"
    using power_loop_funpow [where i = 0 and p = p and num = b and res = 1] that
    by (simp add: power_fn_def)
  moreover have "power_fn b p = prod_list (replicate (nat p) b)" if "0 \<le> p"
    using power_fn_nat [OF that] by simp
  ultimately show ?thesis by blast
qed

theorem power_nonneg_exponent_witness:
  "(0::int) \<le> 3 \<and> power_fn 2 3 = ((\<lambda>res. res * 2) ^^ nat 3) 1 \<and> power_fn 2 3 = 8"
  using power_nonneg_exponent [of 2 3] by (simp add: eval_nat_numeral)

text \<open>
  C9. For a negative exponent the loop condition \<open>0 < p\<close> fails at once: the body never
  runs and the result is 1, whatever the base. Nothing rejects the exponent.
\<close>

theorem power_negative_exponent:
  "p < 0 \<Longrightarrow> power_fn b p = 1"
  unfolding power_fn_def by (subst power_loop.simps) simp

theorem power_negative_exponent_witness:
  "(-2::int) < 0 \<and> power_fn 5 (-2) = 1"
  using power_negative_exponent [of "-2" 5] by simp

text \<open>
  C10. \<open>fact\<close> returns 1 for every argument at most 1 (0 and the negative ones
  included): the loop runs only while the argument exceeds 1, so nothing is multiplied
  and no error is raised.
\<close>

theorem fact_at_most_one:
  "x \<le> 1 \<Longrightarrow> fact_fn x = 1"
  unfolding fact_fn_def by (subst fact_loop.simps) simp

theorem fact_at_most_one_witness:
  "(-7::int) \<le> 1 \<and> fact_fn (-7) = 1 \<and> fact_fn 0 = 1 \<and> fact_fn 1 = 1"
  using fact_at_most_one [of "-7"] fact_at_most_one [of 0] fact_at_most_one [of 1] by simp

section \<open>Properties of the Caesar cipher\<close>

lemma smod_nonneg: "0 \<le> a \<Longrightarrow> 0 < b \<Longrightarrow> (a::int) smod b = a mod b"
  by (simp add: smod_int_alt_def sgn_if)

lemma smod_26_3: "(3::int) smod 26 = 3" "(- 3::int) smod 26 = - 3"
  by (simp_all add: smod_int_alt_def)

lemma code_char_of: "0 \<le> n \<Longrightarrow> n < 256 \<Longrightarrow> code (char_of n) = n"
  by (simp add: code_def)


lemma code_inj: "code c = code d \<Longrightarrow> c = d"
  by (simp add: code_def)

lemma code_letters:
  "code CHR ''a'' = 97" "code CHR ''z'' = 122" "code CHR ''A'' = 65" "code CHR ''Z'' = 90"
  by (simp_all add: code_def)

lemma shift_char_lower:
  assumes "lower_case c" "- 26 \<le> sv"
  shows "code (shift_char sv c) = 97 + (code c - 97 + sv + 26) mod 26"
proof -
  have lo: "97 \<le> code c" "code c \<le> 122"
    using assms(1) by (simp_all add: lower_case_def code_letters)
  have nn: "0 \<le> code c - 97 + sv + 26" using lo assms(2) by simp
  have "shift_char sv c = char_of (97 + (code c - 97 + sv + 26) mod 26)"
    using assms(1) nn by (simp add: shift_char_def code_letters smod_nonneg)
  moreover have "0 \<le> (code c - 97 + sv + 26) mod 26" "(code c - 97 + sv + 26) mod 26 < 26"
    by simp_all
  ultimately show ?thesis by (simp add: code_char_of)
qed

lemma shift_char_upper:
  assumes "upper_case c" "- 26 \<le> sv"
  shows "code (shift_char sv c) = 65 + (code c - 65 + sv + 26) mod 26"
proof -
  have up: "65 \<le> code c" "code c \<le> 90"
    using assms(1) by (simp_all add: upper_case_def code_letters)
  then have nl: "\<not> lower_case c" by (simp add: lower_case_def code_letters)
  have nn: "0 \<le> code c - 65 + sv + 26" using up assms(2) by simp
  have "shift_char sv c = char_of (65 + (code c - 65 + sv + 26) mod 26)"
    using assms(1) nl nn by (simp add: shift_char_def code_letters smod_nonneg)
  moreover have "0 \<le> (code c - 65 + sv + 26) mod 26" "(code c - 65 + sv + 26) mod 26 < 26"
    by simp_all
  ultimately show ?thesis by (simp add: code_char_of)
qed

lemma shift_char_other:
  "\<not> lower_case c \<Longrightarrow> \<not> upper_case c \<Longrightarrow> shift_char sv c = c"
  by (simp add: shift_char_def)

lemma shift_char_keeps_lower:
  assumes "lower_case c" "- 26 \<le> sv"
  shows "lower_case (shift_char sv c)"
proof -
  have "0 \<le> (code c - 97 + sv + 26) mod 26" "(code c - 97 + sv + 26) mod 26 < 26"
    by simp_all
  then show ?thesis
    using shift_char_lower [OF assms] by (simp add: lower_case_def code_letters)
qed

lemma shift_char_keeps_upper:
  assumes "upper_case c" "- 26 \<le> sv"
  shows "upper_case (shift_char sv c)"
proof -
  have "0 \<le> (code c - 65 + sv + 26) mod 26" "(code c - 65 + sv + 26) mod 26 < 26"
    by simp_all
  then show ?thesis
    using shift_char_upper [OF assms] by (simp add: upper_case_def code_letters)
qed

lemma mod26_inverse:
  assumes "0 \<le> a" "a < 26"
  shows "((a + sv + 26) mod 26 - sv + 26) mod 26 = (a::int)"
proof -
  have e: "(52 + a) mod 26 = a mod 26"
    using mod_mult_self2 [of a 26 2] by (simp add: add.commute)
  have "((a + sv + 26) mod 26 - sv + 26) mod 26 = a mod 26"
    by (simp add: mod_simps e)
  then show ?thesis using assms by simp
qed

lemma shift_char_inverse:
  assumes "- 26 < sv" "sv < 26"
  shows "shift_char (- sv) (shift_char sv c) = c"
proof -
  consider (lower) "lower_case c" | (upper) "upper_case c"
    | (other) "\<not> lower_case c \<and> \<not> upper_case c"
    by blast
  then show ?thesis
  proof cases
    case lower
    then have lo: "97 \<le> code c" "code c \<le> 122"
      by (simp_all add: lower_case_def code_letters)
    define m where "m = (code c - 97 + sv + 26) mod 26"
    have 1: "code (shift_char sv c) = 97 + m"
      using lower assms by (simp add: shift_char_lower m_def)
    have "code (shift_char (- sv) (shift_char sv c)) = 97 + (97 + m - 97 + (- sv) + 26) mod 26"
      using lower assms by (subst shift_char_lower) (simp_all add: shift_char_keeps_lower 1)
    also have "(97 + m - 97 + (- sv) + 26) mod 26 = code c - 97"
      using mod26_inverse [of "code c - 97" sv] lo unfolding m_def by simp
    finally show ?thesis by (intro code_inj) simp
  next
    case upper
    then have up: "65 \<le> code c" "code c \<le> 90"
      by (simp_all add: upper_case_def code_letters)
    define m where "m = (code c - 65 + sv + 26) mod 26"
    have 1: "code (shift_char sv c) = 65 + m"
      using upper assms by (simp add: shift_char_upper m_def)
    have "code (shift_char (- sv) (shift_char sv c)) = 65 + (65 + m - 65 + (- sv) + 26) mod 26"
      using upper assms by (subst shift_char_upper) (simp_all add: shift_char_keeps_upper 1)
    also have "(65 + m - 65 + (- sv) + 26) mod 26 = code c - 65"
      using mod26_inverse [of "code c - 65" sv] up unfolding m_def by simp
    finally show ?thesis by (intro code_inj) simp
  next
    case other
    then show ?thesis by (simp add: shift_char_other)
  qed
qed

lemma encode_loop_map: "encode_loop sv ip op = op @ map (shift_char sv) ip"
  by (induction ip arbitrary: op) simp_all

lemma ceaser_cipher_map: "ceaser_cipher sv ip = map (shift_char (sv smod 26)) ip"
  by (simp add: ceaser_cipher_def encode_loop_map)

text \<open>
  C6. Coding a line with shift 3 and the result with shift -3 gives the line back, for
  every line. Each pass keeps the length, maps a lowercase letter to a lowercase letter
  and an uppercase letter to an uppercase letter, and leaves every other character as it
  is. In particular \<open>Attack\<close> becomes \<open>Dwwdfn\<close> and comes back.
\<close>

theorem caesar_roundtrip_3:
  "ceaser_cipher (- 3) (ceaser_cipher 3 s) = s \<and>
   ((sv = 3 \<or> sv = - 3) \<longrightarrow>
      length (ceaser_cipher sv s) = length s \<and>
      (\<forall>i < length s.
         (lower_case (s ! i) \<longrightarrow> lower_case (ceaser_cipher sv s ! i)) \<and>
         (upper_case (s ! i) \<longrightarrow> upper_case (ceaser_cipher sv s ! i)) \<and>
         (\<not> lower_case (s ! i) \<and> \<not> upper_case (s ! i) \<longrightarrow>
            ceaser_cipher sv s ! i = s ! i))) \<and>
   ceaser_cipher 3 ''Attack'' = ''Dwwdfn'' \<and>
   ceaser_cipher (- 3) (ceaser_cipher 3 ''Attack'') = ''Attack''"
proof -
  have rt: "ceaser_cipher (- 3) (ceaser_cipher 3 t) = t" for t
    using shift_char_inverse [of 3] by (simp add: ceaser_cipher_map smod_26_3 comp_def)
  have pass: "length (ceaser_cipher sv s) = length s \<and>
      (\<forall>i < length s.
         (lower_case (s ! i) \<longrightarrow> lower_case (ceaser_cipher sv s ! i)) \<and>
         (upper_case (s ! i) \<longrightarrow> upper_case (ceaser_cipher sv s ! i)) \<and>
         (\<not> lower_case (s ! i) \<and> \<not> upper_case (s ! i) \<longrightarrow>
            ceaser_cipher sv s ! i = s ! i))" if "sv = 3 \<or> sv = - 3"
  proof -
    from that have sm: "sv smod 26 = sv" "- 26 \<le> sv" by (auto simp: smod_26_3)
    show ?thesis
      using sm(2)
      by (simp add: ceaser_cipher_map sm(1) shift_char_keeps_lower shift_char_keeps_upper
          shift_char_other)
  qed
  have att: "ceaser_cipher 3 ''Attack'' = ''Dwwdfn''"
    by (simp add: ceaser_cipher_map smod_26_3 shift_char_def lower_case_def upper_case_def
        code_def smod_int_alt_def char_of_def)
  from rt [of s] rt [of "''Attack''"] pass att show ?thesis by blast
qed

theorem caesar_roundtrip_3_witness:
  "ceaser_cipher (- 3) (ceaser_cipher 3 ''Hi, z!'') = ''Hi, z!'' \<and>
   ((3::int) = 3 \<or> (3::int) = - 3) \<and> (1::nat) < length ''Hi, z!'' \<and>
   lower_case (''Hi, z!'' ! 1) \<and> lower_case (ceaser_cipher 3 ''Hi, z!'' ! 1) \<and>
   upper_case (''Hi, z!'' ! 0) \<and> upper_case (ceaser_cipher 3 ''Hi, z!'' ! 0) \<and>
   \<not> lower_case (''Hi, z!'' ! 2) \<and> \<not> upper_case (''Hi, z!'' ! 2) \<and>
   ceaser_cipher 3 ''Hi, z!'' ! 2 = ''Hi, z!'' ! 2"
proof -
  have h: "((3::int) = 3 \<or> (3::int) = - 3)" "(0::nat) < length ''Hi, z!''"
    "(1::nat) < length ''Hi, z!''" "(2::nat) < length ''Hi, z!''"
    "lower_case (''Hi, z!'' ! 1)" "upper_case (''Hi, z!'' ! 0)"
    "\<not> lower_case (''Hi, z!'' ! 2)" "\<not> upper_case (''Hi, z!'' ! 2)"
    by (simp_all add: lower_case_def upper_case_def code_def)
  show ?thesis
    using caesar_roundtrip_3 [of "''Hi, z!''" 3] h by blast
qed

section \<open>Properties of the brute-force breaker\<close>





















section \<open>Properties of hasDecimal\<close>

lemma abso_abs: "abso x = \<bar>x\<bar>"
  by (simp add: abso_def)

lemma hasDecimal_examples:
  "hasDecimal 3 = Some False"
  "hasDecimal (30000000001 / 10000000000) = Some False"
  "hasDecimal (31 / 10) = Some True"
  by (simp_all add: hasDecimal_def to_int_def abso_abs trunc_def)

text \<open>
  C8. The number \<open>2147483648.0 = 2^31\<close> has no fractional part: its distance to its
  truncation is 0, so \<open>hasDecimal\<close> should be false there. The cast \<open>(int)num\<close> cannot
  give the truncation, which does not fit the 32-bit \<open>int\<close>: the call has no defined
  result, and whichever \<open>int\<close> the cast yields, the comparison
  \<^verbatim>\<open>abso(num - (int)num) > 1e-9\<close> is true.
\<close>

theorem hasDecimal_cast_overflow:
  "hasDecimal 2147483648 = None \<and>
   trunc 2147483648 = 2147483648 \<and>
   \<not> (1 / 10 ^ 9 < abso (2147483648 - of_int (trunc 2147483648))) \<and>
   (\<forall>n::int. - (2 ^ 31) \<le> n \<and> n < 2 ^ 31 \<longrightarrow> 1 / 10 ^ 9 < abso (2147483648 - of_int n))"
proof -
  have t: "trunc 2147483648 = 2147483648" by (simp add: trunc_def)
  have u: "hasDecimal 2147483648 = None"
    by (simp add: hasDecimal_def to_int_def trunc_def)
  have d: "\<not> (1 / 10 ^ 9 < abso (2147483648 - of_int (trunc 2147483648)))"
    by (simp add: t abso_abs)
  have c: "1 / 10 ^ 9 < abso (2147483648 - of_int n)" if "n < 2 ^ 31" for n :: int
  proof -
    from that have "n \<le> 2147483647" by simp
    then have "real_of_int n \<le> 2147483647" by linarith
    then have "1 \<le> 2147483648 - real_of_int n" by simp
    then show ?thesis by (simp add: abso_abs)
  qed
  from t u d c show ?thesis by blast
qed

theorem hasDecimal_cast_overflow_witness:
  "- (2 ^ 31) \<le> (- 2147483648 :: int) \<and> (- 2147483648 :: int) < 2 ^ 31 \<and>
   1 / 10 ^ 9 < abso (2147483648 - of_int (- 2147483648))"
proof -
  have h: "- (2 ^ 31) \<le> (- 2147483648 :: int) \<and> (- 2147483648 :: int) < 2 ^ 31" by simp
  have "\<forall>n::int. - (2 ^ 31) \<le> n \<and> n < 2 ^ 31 \<longrightarrow> 1 / 10 ^ 9 < abso (2147483648 - of_int n)"
    using hasDecimal_cast_overflow by blast
  with h have "1 / 10 ^ 9 < abso (2147483648 - of_int (- 2147483648 :: int))" by blast
  with h show ?thesis by blast
qed

section \<open>Properties of mySqrt\<close>

lemma sqrt_loop_funpow:
  "i \<le> 100 \<Longrightarrow> sqrt_loop x i guess = (newton_step x ^^ nat (100 - i)) guess"
proof (induction x i guess rule: sqrt_loop.induct)
  case (1 x i guess)
  show ?case
  proof (cases "i < 100")
    case True
    then have "nat (100 - i) = Suc (nat (100 - (i + 1)))" by simp
    with True "1.IH" show ?thesis
      by (subst sqrt_loop.simps) (simp add: funpow_Suc_right del: funpow.simps)
  next
    case False
    with "1.prems" have "i = 100" by simp
    then show ?thesis by (subst sqrt_loop.simps) simp
  qed
qed

lemma newton_step_pos:
  "0 < x \<Longrightarrow> 0 < g \<Longrightarrow> newton_step (Finite x) (Finite g) = Finite ((g + x / g) / 2)"
  by (simp add: newton_step_def)

lemma newton_pos: "0 < x \<Longrightarrow> 0 < g \<Longrightarrow> 0 < g + x / (g::real)"
  by (simp add: add_pos_pos)

lemma newton_funpow_pos:
  assumes "0 < x" "0 < g"
  shows "(newton_step (Finite x) ^^ n) (Finite g) = Finite (((\<lambda>guess. (guess + x / guess) / 2) ^^ n) g)
    \<and> 0 < ((\<lambda>guess. (guess + x / guess) / 2) ^^ n) g"
proof (induction n)
  case 0
  show ?case using assms by simp
next
  case (Suc n)
  then show ?case using assms by (simp add: newton_step_pos newton_pos)
qed

lemma newton_step_NaN: "newton_step x NaN = NaN"
  by (simp add: newton_step_def)

lemma newton_funpow_NaN: "(newton_step x ^^ n) NaN = NaN"
  by (induction n) (simp_all add: newton_step_NaN)

lemma newton_funpow_zero: "(newton_step (Finite 0) ^^ Suc n) (Finite 0) = NaN"
proof -
  have "newton_step (Finite 0) (Finite 0) = NaN" by (simp add: newton_step_def)
  then show ?thesis
    by (simp add: funpow_Suc_right newton_funpow_NaN del: funpow.simps)
qed

lemma mySqrt_zero: "mySqrt (Finite 0) = ([], NaN)"
  using newton_funpow_zero [of 99] by (simp add: mySqrt_def sqrt_loop_funpow)

lemma mySqrt_checked_zero: "mySqrt_checked 0 = ([], Inl DivisionByZero)"
  by (simp add: mySqrt_checked_def sqrt_loop_checked.simps [of 0 0 0] checked_div_def)

lemma sqrt_loop_checked_pos:
  "i \<le> 100 \<Longrightarrow> 0 < x \<Longrightarrow> 0 < guess \<Longrightarrow>
   sqrt_loop_checked x i guess = Inr (((\<lambda>guess. (guess + x / guess) / 2) ^^ nat (100 - i)) guess)"
proof (induction x i guess rule: sqrt_loop_checked.induct)
  case (1 x i guess)
  show ?case
  proof (cases "i < 100")
    case True
    then have n: "nat (100 - i) = Suc (nat (100 - (i + 1)))" by simp
    have cd: "checked_div x guess = Inr (x / guess)"
      using "1.prems" by (simp add: checked_div_def)
    have "0 < (guess + x / guess) / 2" using "1.prems" by (simp add: newton_pos)
    then have "sqrt_loop_checked x (i + 1) ((guess + x / guess) / 2) =
      Inr (((\<lambda>guess. (guess + x / guess) / 2) ^^ nat (100 - (i + 1))) ((guess + x / guess) / 2))"
      using True "1.prems" cd by (intro "1.IH") simp_all
    then show ?thesis
      using True cd by (subst sqrt_loop_checked.simps) (simp add: n funpow_Suc_right del: funpow.simps)
  next
    case False
    with "1.prems" have "i = 100" by simp
    then show ?thesis by (subst sqrt_loop_checked.simps) simp
  qed
qed

lemma mySqrt_checked_pos:
  "0 < x \<Longrightarrow>
   mySqrt_checked x = ([], Inr (((\<lambda>guess. (guess + x / guess) / 2) ^^ 100) (x / 2)))"
  using sqrt_loop_checked_pos [of 0 x "x / 2"] by (simp add: mySqrt_checked_def)

lemma funpow_fixed: "f a = a \<Longrightarrow> (f ^^ n) a = a"
  by (induction n) simp_all

text \<open>
  C2. For \<open>x < 0\<close> the function prints its error message and returns 0. For \<open>x \<ge> 0\<close>
  nothing is printed and the result is the initial guess \<open>x / 2\<close> after exactly 100
  Newton-Raphson steps: the loop has no other exit. For \<open>x > 0\<close> every guess is a
  positive number and each step is \<open>(guess + x / guess) / 2\<close> on the reals.
\<close>

theorem mySqrt_hundred_newton_steps:
  "(x < 0 \<longrightarrow>
      mySqrt (Finite x) = (''Error: Square root of negative number!'' @ [CHR 0x0A], Finite 0)) \<and>
   (0 \<le> x \<longrightarrow>
      mySqrt (Finite x) = ([], (newton_step (Finite x) ^^ 100) (Finite (x / 2)))) \<and>
   (0 < x \<longrightarrow>
      mySqrt (Finite x) = ([], Finite (((\<lambda>guess. (guess + x / guess) / 2) ^^ 100) (x / 2))))"
proof -
  have neg: "mySqrt (Finite x) = (''Error: Square root of negative number!'' @ [CHR 0x0A], Finite 0)"
    if "x < 0"
    using that by (simp add: mySqrt_def)
  have nonneg: "mySqrt (Finite x) = ([], (newton_step (Finite x) ^^ 100) (Finite (x / 2)))"
    if "0 \<le> x"
    using that by (simp add: mySqrt_def sqrt_loop_funpow)
  have pos: "mySqrt (Finite x) = ([], Finite (((\<lambda>guess. (guess + x / guess) / 2) ^^ 100) (x / 2)))"
    if "0 < x"
    using that nonneg newton_funpow_pos [of x "x / 2" 100] by simp
  from neg nonneg pos show ?thesis by blast
qed

theorem mySqrt_hundred_newton_steps_witness:
  "(- 4 :: real) < 0 \<and> (0 :: real) < 4 \<and>
   mySqrt (Finite (- 4)) = (''Error: Square root of negative number!'' @ [CHR 0x0A], Finite 0) \<and>
   mySqrt (Finite 4) = ([], Finite 2)"
proof -
  have fp: "((\<lambda>guess. (guess + 4 / guess) / 2) ^^ 100) (2 :: real) = 2"
    by (rule funpow_fixed) simp
  have neg: "mySqrt (Finite (- 4)) =
      (''Error: Square root of negative number!'' @ [CHR 0x0A], Finite 0)"
    by (rule mySqrt_hundred_newton_steps [THEN conjunct1, rule_format]) simp
  have pos: "mySqrt (Finite 4) =
      ([], Finite (((\<lambda>guess. (guess + 4 / guess) / 2) ^^ 100) (4 / 2)))"
    by (rule mySqrt_hundred_newton_steps [THEN conjunct2, THEN conjunct2, rule_format]) simp
  show ?thesis
    using fp by (simp add: neg pos)
qed

text \<open>
  C3. At input 0 the initial guess is \<open>0 / 2 = 0\<close> and the first step divides \<open>x\<close> by it:
  with guarded division the run stops in the division-by-zero branch, and with the
  machine's division \<open>0 / 0\<close> is NaN, which the remaining steps keep, so that \<open>mySqrt(0)\<close>
  returns NaN.
\<close>

theorem mySqrt_zero_divides_by_zero:
  "mySqrt_checked 0 = ([], Inl DivisionByZero) \<and> mySqrt (Finite 0) = ([], NaN)"
  using mySqrt_checked_zero mySqrt_zero by simp

section \<open>Properties of ln\<close>

lemma e_const_pos: "0 < e_const"
  by (simp add: e_const_def)

lemma ln_down_spec:
  "ln_down num k = (r, k') \<Longrightarrow>
     r \<le> 3 / 2 \<and> k \<le> k' \<and> num = r * e_const ^ nat (k' - k) \<and>
     (num \<le> 3 / 2 \<longrightarrow> r = num \<and> k' = k) \<and>
     (3 / 2 < num \<longrightarrow> 1 / 2 < r \<and> k < k') \<and>
     (\<forall>j < nat (k' - k). 3 / 2 < num / e_const ^ j)"
proof (induction num k arbitrary: r k' rule: ln_down.induct)
  case (1 num k)
  show ?case
  proof (cases "3 / 2 < num")
    case True
    then have rec: "ln_down (num / e_const) (k + 1) = (r, k')"
      using "1.prems" by (subst (asm) ln_down.simps) simp
    note ih = "1.IH" [OF True rec]
    from ih have k: "k + 1 \<le> k'" by blast
    then have n: "nat (k' - k) = Suc (nat (k' - (k + 1)))" by simp
    have "num = (num / e_const) * e_const" using e_const_pos by simp
    also have "num / e_const = r * e_const ^ nat (k' - (k + 1))" using ih by blast
    finally have eq: "num = r * e_const ^ nat (k' - k)" by (simp add: n)
    have half: "1 / 2 < r"
    proof (cases "num / e_const \<le> 3 / 2")
      case True
      with ih have "r = num / e_const" by blast
      moreover have "1 / 2 < num / e_const"
        using \<open>3 / 2 < num\<close> by (simp add: e_const_def field_simps)
      ultimately show ?thesis by simp
    next
      case False
      then have "3 / 2 < num / e_const" by simp
      with ih show ?thesis by blast
    qed
    have steps: "3 / 2 < num / e_const ^ j" if "j < nat (k' - k)" for j
    proof (cases j)
      case 0
      with True show ?thesis by simp
    next
      case (Suc i)
      with that n have "i < nat (k' - (k + 1))" by simp
      with ih have "3 / 2 < num / e_const / e_const ^ i" by blast
      then show ?thesis by (simp add: Suc field_simps)
    qed
    from ih eq half k True steps show ?thesis by auto
  next
    case False
    then have "ln_down num k = (num, k)" by (subst ln_down.simps) simp
    with "1.prems" False show ?thesis by simp
  qed
qed

lemma ln_up_spec:
  "0 < num \<Longrightarrow>
   \<exists>r k'. ln_up num k = Some (r, k') \<and>
     1 / 2 \<le> r \<and> k' \<le> k \<and> r = num * e_const ^ nat (k - k') \<and>
     (1 / 2 \<le> num \<longrightarrow> r = num \<and> k' = k) \<and>
     (num < 1 / 2 \<longrightarrow> r < 3 / 2 \<and> k' < k) \<and>
     (\<forall>j < nat (k - k'). num * e_const ^ j < 1 / 2)"
proof (induction "nat \<lceil>1 / num\<rceil>" arbitrary: num k rule: less_induct)
  case less
  show ?case
  proof (cases "num < 1 / 2")
    case True
    have pos: "0 < num * e_const" using less.prems e_const_pos by simp
    have "2 < 1 / num" using True less.prems by (simp add: field_simps)
    have "1 / (num * e_const) \<le> 1 / num - 1"
    proof -
      have "1 / (num * e_const) = (1 / num) * (1 / e_const)" by simp
      also have "\<dots> \<le> (1 / num) * (1 / 2)"
        using less.prems by (intro mult_left_mono) (simp_all add: e_const_def)
      also have "\<dots> \<le> 1 / num - 1" using \<open>2 < 1 / num\<close> by simp
      finally show ?thesis .
    qed
    then have "\<lceil>1 / (num * e_const)\<rceil> \<le> \<lceil>1 / num - 1\<rceil>" by (rule ceiling_mono)
    also have "\<dots> = \<lceil>1 / num\<rceil> - 1" by simp
    finally have "\<lceil>1 / (num * e_const)\<rceil> < \<lceil>1 / num\<rceil>" by simp
    moreover have "0 < \<lceil>1 / num\<rceil>" using less.prems by (simp add: less_ceiling_iff)
    ultimately have "nat \<lceil>1 / (num * e_const)\<rceil> < nat \<lceil>1 / num\<rceil>" by simp
    from less.hyps [OF this pos, of "k - 1"]
    obtain r k' where ih: "ln_up (num * e_const) (k - 1) = Some (r, k')"
      "1 / 2 \<le> r" "k' \<le> k - 1" "r = num * e_const * e_const ^ nat (k - 1 - k')"
      "1 / 2 \<le> num * e_const \<longrightarrow> r = num * e_const \<and> k' = k - 1"
      "num * e_const < 1 / 2 \<longrightarrow> r < 3 / 2 \<and> k' < k - 1"
      "\<forall>j < nat (k - 1 - k'). num * e_const * e_const ^ j < 1 / 2"
      by blast
    have n: "nat (k - k') = Suc (nat (k - 1 - k'))" using ih(3) by simp
    have run: "ln_up num k = Some (r, k')"
      using True ih(1) by (subst ln_up.simps) simp
    have eq: "r = num * e_const ^ nat (k - k')" using ih(4) by (simp add: n)
    have small: "r < 3 / 2"
    proof (cases "1 / 2 \<le> num * e_const")
      case True
      with ih(5) have "r = num * e_const" by blast
      moreover have "num * e_const < 3 / 2"
        using \<open>num < 1 / 2\<close> by (simp add: e_const_def field_simps)
      ultimately show ?thesis by simp
    next
      case False
      then have "num * e_const < 1 / 2" by simp
      with ih(6) show ?thesis by blast
    qed
    have steps: "num * e_const ^ j < 1 / 2" if "j < nat (k - k')" for j
    proof (cases j)
      case 0
      with True show ?thesis by simp
    next
      case (Suc i)
      with that n have "i < nat (k - 1 - k')" by simp
      with ih(7) have "num * e_const * e_const ^ i < 1 / 2" by blast
      then show ?thesis by (simp add: Suc mult.assoc)
    qed
    from run ih(2,3) eq small True steps show ?thesis by auto
  next
    case False
    then have "ln_up num k = Some (num, k)" by (subst ln_up.simps) simp
    with False show ?thesis by simp
  qed
qed

lemma lnNear1_term:
  assumes "1 \<le> c"
  shows "(if int c smod 2 = 0 then - 1 else 1) * power_fn z (int c) / of_int (int c)
           = taylor_term z c"
proof -
  have "int c smod 2 = int c mod 2" by (simp add: smod_nonneg)
  then have "(int c smod 2 = 0) \<longleftrightarrow> even c" by (simp add: even_iff_mod_2_eq_zero) presburger
  moreover have "power_fn z (int c) = z ^ c" by (simp add: power_fn_nat)
  ultimately show ?thesis by (simp add: taylor_term_def)
qed

lemma lnNear1_loop_step:
  assumes "1 \<le> c"
  shows "lnNear1_loop z (int c) result =
    (if 1 / 10 ^ 10 < \<bar>taylor_term z c\<bar>
     then lnNear1_loop z (int (Suc c)) (result + taylor_term z c)
     else Some (result + taylor_term z c))"
proof -
  have suc: "int c + 1 = int (Suc c)" by simp
  show ?thesis
    by (subst lnNear1_loop.simps)
      (simp only: Let_def lnNear1_term [OF assms] abso_abs suc)
qed

lemma lnNear1_loop_sum:
  "1 \<le> c \<Longrightarrow> c \<le> N \<Longrightarrow>
   (\<forall>n. c \<le> n \<and> n < N \<longrightarrow> 1 / 10 ^ 10 < \<bar>taylor_term z n\<bar>) \<Longrightarrow>
   \<bar>taylor_term z N\<bar> \<le> 1 / 10 ^ 10 \<Longrightarrow>
   lnNear1_loop z (int c) result = Some (result + (\<Sum>n = c..N. taylor_term z n))"
proof (induction "N - c" arbitrary: c result)
  case 0
  then have "c = N" by simp
  have "lnNear1_loop z (int c) result = Some (result + taylor_term z c)"
    using 0 \<open>c = N\<close> by (subst lnNear1_loop_step) simp_all
  then show ?case by (simp add: \<open>c = N\<close>)
next
  case (Suc d)
  then have lt: "c < N" by simp
  then have big: "1 / 10 ^ 10 < \<bar>taylor_term z c\<bar>" using Suc.prems by simp
  have "lnNear1_loop z (int c) result
      = lnNear1_loop z (int (Suc c)) (result + taylor_term z c)"
    using big Suc.prems(1) by (subst lnNear1_loop_step) simp_all
  also have "\<dots> = Some (result + taylor_term z c + (\<Sum>n = Suc c..N. taylor_term z n))"
    using Suc.hyps(2) Suc.prems lt by (intro Suc.hyps(1)) simp_all
  also have "result + taylor_term z c + (\<Sum>n = Suc c..N. taylor_term z n)
      = result + (\<Sum>n = c..N. taylor_term z n)"
    using lt by (simp add: sum.atLeast_Suc_atMost)
  finally show ?case .
qed

lemma taylor_term_abs: "1 \<le> n \<Longrightarrow> \<bar>taylor_term z n\<bar> = \<bar>z\<bar> ^ n / real n"
  by (simp add: taylor_term_def abs_mult power_abs)

lemma taylor_term_29_small:
  assumes "\<bar>z\<bar> \<le> 1 / 2"
  shows "\<bar>taylor_term z 29\<bar> \<le> 1 / 10 ^ 10"
proof -
  have "\<bar>z\<bar> ^ 29 \<le> (1 / 2) ^ 29" using assms by (intro power_mono) simp_all
  then have "\<bar>z\<bar> ^ 29 / 29 \<le> (1 / 2) ^ 29 / 29" by (simp add: divide_right_mono)
  also have "\<dots> \<le> (1 / 10 ^ 10 :: real)" by (simp add: power_divide)
  finally show ?thesis by (simp add: taylor_term_abs)
qed

lemma first_small_term:
  assumes "\<bar>z\<bar> \<le> 1 / 2"
  shows "\<exists>N. 1 \<le> N \<and> N \<le> 29 \<and> \<bar>taylor_term z N\<bar> \<le> 1 / 10 ^ 10 \<and>
    (\<forall>n. 1 \<le> n \<and> n < N \<longrightarrow> 1 / 10 ^ 10 < \<bar>taylor_term z n\<bar>)"
proof -
  define P where "P n \<longleftrightarrow> 1 \<le> n \<and> \<bar>taylor_term z n\<bar> \<le> 1 / 10 ^ 10" for n
  define N where "N = (LEAST n. P n)"
  have P29: "P 29" using taylor_term_29_small [OF assms] by (simp add: P_def)
  then have "P N" unfolding N_def by (rule LeastI)
  moreover have "N \<le> 29" unfolding N_def using P29 by (rule Least_le)
  moreover have "\<not> P n" if "n < N" for n
    using that unfolding N_def by (rule not_less_Least)
  ultimately show ?thesis unfolding P_def by (intro exI [of _ N]) force
qed

lemma lnNear1_series:
  assumes "1 / 2 \<le> r" "r \<le> 3 / 2"
  shows "\<exists>N. 1 \<le> N \<and> N \<le> 29 \<and> \<bar>taylor_term (r - 1) N\<bar> \<le> 1 / 10 ^ 10 \<and>
    (\<forall>n. 1 \<le> n \<and> n < N \<longrightarrow> 1 / 10 ^ 10 < \<bar>taylor_term (r - 1) n\<bar>) \<and>
    lnNear1 r = Some (\<Sum>n = 1..N. taylor_term (r - 1) n)"
proof -
  have "\<bar>r - 1\<bar> \<le> 1 / 2" using assms by linarith
  from first_small_term [OF this] obtain N where N: "1 \<le> N" "N \<le> 29"
    "\<bar>taylor_term (r - 1) N\<bar> \<le> 1 / 10 ^ 10"
    "\<forall>n. 1 \<le> n \<and> n < N \<longrightarrow> 1 / 10 ^ 10 < \<bar>taylor_term (r - 1) n\<bar>"
    by blast
  have "lnNear1_loop (r - 1) (int 1) 0 = Some (0 + (\<Sum>n = 1..N. taylor_term (r - 1) n))"
    using N by (intro lnNear1_loop_sum) simp_all
  then have "lnNear1 r = Some (\<Sum>n = 1..N. taylor_term (r - 1) n)"
    by (simp add: lnNear1_def)
  with N show ?thesis by blast
qed

lemma ln_fn_positive:
  assumes "0 < x"
  shows "\<exists>r k N.
     ln_up (fst (ln_down x 0)) (snd (ln_down x 0)) = Some (r, k) \<and>
     1 / 2 \<le> r \<and> r \<le> 3 / 2 \<and> x = r * e_const powi k \<and>
     (3 / 2 < x \<longrightarrow> 0 < k) \<and> (x < 1 / 2 \<longrightarrow> k < 0) \<and>
     (1 / 2 \<le> x \<and> x \<le> 3 / 2 \<longrightarrow> k = 0 \<and> r = x) \<and>
     (\<forall>j < nat k. 3 / 2 < x / e_const ^ j) \<and>
     (\<forall>j < nat (- k). x * e_const ^ j < 1 / 2) \<and>
     1 \<le> N \<and> N \<le> 29 \<and> \<bar>taylor_term (r - 1) N\<bar> \<le> 1 / 10 ^ 10 \<and>
     (\<forall>n. 1 \<le> n \<and> n < N \<longrightarrow> 1 / 10 ^ 10 < \<bar>taylor_term (r - 1) n\<bar>) \<and>
     lnNear1 r = Some (\<Sum>n = 1..N. taylor_term (r - 1) n) \<and>
     ln_fn x = Some ([], of_int k + (\<Sum>n = 1..N. taylor_term (r - 1) n))"
proof -
  obtain r1 k1 where d: "ln_down x 0 = (r1, k1)" by force
  have z: "k1 - 0 = k1" by simp
  from ln_down_spec [OF d, unfolded z]
  have d1: "r1 \<le> 3 / 2" and d2: "0 \<le> k1" and d3: "x = r1 * e_const ^ nat k1"
    and d4: "x \<le> 3 / 2 \<Longrightarrow> r1 = x \<and> k1 = 0"
    and d5: "3 / 2 < x \<Longrightarrow> 1 / 2 < r1 \<and> 0 < k1"
    and d6: "\<And>j. j < nat k1 \<Longrightarrow> 3 / 2 < x / e_const ^ j"
    by blast+
  have r1_pos: "0 < r1"
  proof (cases "3 / 2 < x")
    case True
    with d5 show ?thesis by simp
  next
    case False
    with d4 assms show ?thesis by simp
  qed
  from ln_up_spec [OF r1_pos, of k1]
  obtain r k where u: "ln_up r1 k1 = Some (r, k)"
    and u1: "1 / 2 \<le> r" and u2: "k \<le> k1" and u3: "r = r1 * e_const ^ nat (k1 - k)"
    and u4: "1 / 2 \<le> r1 \<longrightarrow> r = r1 \<and> k = k1"
    and u5: "r1 < 1 / 2 \<longrightarrow> r < 3 / 2 \<and> k < k1"
    and u6: "\<forall>j < nat (k1 - k). r1 * e_const ^ j < 1 / 2"
    by blast
  have facts: "r \<le> 3 / 2 \<and> x = r * e_const powi k \<and>
     (3 / 2 < x \<longrightarrow> 0 < k) \<and> (x < 1 / 2 \<longrightarrow> k < 0) \<and>
     (1 / 2 \<le> x \<and> x \<le> 3 / 2 \<longrightarrow> k = 0 \<and> r = x) \<and>
     (\<forall>j < nat k. 3 / 2 < x / e_const ^ j) \<and>
     (\<forall>j < nat (- k). x * e_const ^ j < 1 / 2)"
  proof (cases "3 / 2 < x")
    case True
    with d5 have "1 / 2 < r1" "0 < k1" by simp_all
    with u4 have rk: "r = r1" "k = k1" by simp_all
    have "x = r * e_const powi k"
      using d3 d2 by (simp add: rk power_int_nonneg_exp)
    with True d1 d6 \<open>0 < k1\<close> show ?thesis by (simp add: rk)
  next
    case False
    with d4 have x: "r1 = x" "k1 = 0" by simp_all
    have k0: "k \<le> 0" using u2 x by simp
    have "r * e_const powi k = x * e_const ^ nat (- k) * inverse e_const ^ nat (- k)"
      using u3 k0 x by (simp add: power_int_def)
    also have "\<dots> = x"
      using e_const_pos by (simp add: power_inverse)
    finally have eq: "x = r * e_const powi k" by simp
    have le: "r \<le> 3 / 2"
    proof (cases "1 / 2 \<le> x")
      case True
      with u4 x False show ?thesis by simp
    next
      case False
      with u5 x show ?thesis by simp
    qed
    have mid: "k = 0 \<and> r = x" if "1 / 2 \<le> x" using that u4 x by simp
    have low: "k < 0" if "x < 1 / 2" using that u5 x by simp
    have steps: "\<forall>j < nat (- k). x * e_const ^ j < 1 / 2" using u6 x by simp
    have up: "\<forall>j < nat k. 3 / 2 < x / e_const ^ j" using k0 by simp
    from False eq le mid low steps up show ?thesis by blast
  qed
  from u1 facts have "1 / 2 \<le> r" "r \<le> 3 / 2" by blast+
  from lnNear1_series [OF this] obtain N where N: "1 \<le> N" "N \<le> 29"
    "\<bar>taylor_term (r - 1) N\<bar> \<le> 1 / 10 ^ 10"
    "\<forall>n. 1 \<le> n \<and> n < N \<longrightarrow> 1 / 10 ^ 10 < \<bar>taylor_term (r - 1) n\<bar>"
    "lnNear1 r = Some (\<Sum>n = 1..N. taylor_term (r - 1) n)"
    by blast
  have run: "ln_fn x = Some ([], of_int k + (\<Sum>n = 1..N. taylor_term (r - 1) n))"
    using assms by (simp add: ln_fn_def d u N(5))
  have red: "ln_up (fst (ln_down x 0)) (snd (ln_down x 0)) = Some (r, k)"
    by (simp add: d u)
  from red u1 facts N run show ?thesis by blast
qed

text \<open>
  C1. For every \<open>x > 0\<close> the reduction loops end with a pair \<open>(r, k)\<close>: the first loop
  divided by \<open>e\<close> once for each of the \<open>k\<close> values above 1.5 it met, the second
  multiplied by \<open>e\<close> once for each of the \<open>-k\<close> values below 0.5 it met, and the
  reduced argument satisfies \<open>0.5 \<le> r \<le> 1.5\<close> and \<open>x = r * e^k\<close>. The series loop
  then stops at the first term \<open>N\<close> (at most the 29th) whose magnitude is not greater
  than \<open>1e-10\<close>, and \<open>ln\<close> returns \<open>k\<close> plus the sum of the terms
  \<open>(-1)^(n+1) (r-1)^n / n\<close> for \<open>n = 1..N\<close>, printing nothing.
\<close>

theorem ln_reduction_and_series:
  assumes "0 < x"
  shows "\<exists>r k N.
     ln_up (fst (ln_down x 0)) (snd (ln_down x 0)) = Some (r, k) \<and>
     1 / 2 \<le> r \<and> r \<le> 3 / 2 \<and> x = r * e_const powi k \<and>
     (3 / 2 < x \<longrightarrow> 0 < k) \<and> (x < 1 / 2 \<longrightarrow> k < 0) \<and>
     (1 / 2 \<le> x \<and> x \<le> 3 / 2 \<longrightarrow> k = 0 \<and> r = x) \<and>
     (\<forall>j < nat k. 3 / 2 < x / e_const ^ j) \<and>
     (\<forall>j < nat (- k). x * e_const ^ j < 1 / 2) \<and>
     1 \<le> N \<and> N \<le> 29 \<and> \<bar>taylor_term (r - 1) N\<bar> \<le> 1 / 10 ^ 10 \<and>
     (\<forall>n. 1 \<le> n \<and> n < N \<longrightarrow> 1 / 10 ^ 10 < \<bar>taylor_term (r - 1) n\<bar>) \<and>
     lnNear1 r = Some (\<Sum>n = 1..N. taylor_term (r - 1) n) \<and>
     ln_fn x = Some ([], of_int k + (\<Sum>n = 1..N. taylor_term (r - 1) n))"
  using assms by (rule ln_fn_positive)

theorem ln_reduction_and_series_witness:
  "(0::real) < 4 \<and>
   (\<exists>N. 1 \<le> N \<and> N \<le> 29 \<and>
      ln_fn 4 = Some ([], 1 + (\<Sum>n = 1..N. taylor_term (4 / e_const - 1) n)))"
proof -
  have pos: "(0::real) < 4" by simp
  from ln_reduction_and_series [OF pos]
  obtain r k N where k_pos: "3 / 2 < (4::real) \<longrightarrow> 0 < k"
    and eq: "4 = r * e_const powi k"
    and steps: "\<forall>j < nat k. 3 / 2 < 4 / e_const ^ j"
    and N: "1 \<le> N" "N \<le> 29"
    and run: "ln_fn 4 = Some ([], of_int k + (\<Sum>n = 1..N. taylor_term (r - 1) n))"
    by blast
  have "0 < k" using k_pos by simp
  have "\<not> 3 / 2 < 4 / e_const ^ 1" by (simp add: e_const_def)
  with steps have "\<not> 1 < nat k" by blast
  with \<open>0 < k\<close> have k: "k = 1" by simp
  have "4 = r * e_const" using eq by (simp add: k)
  then have r: "r = 4 / e_const" using e_const_pos by (simp add: field_simps)
  from N run show ?thesis unfolding k r by (intro conjI pos exI [of _ N]) simp_all
qed

text \<open>
  C4. \<open>ln\<close> fails exactly on the non-positive inputs. For 0 it prints
  \<open>NOT DEFINED\<close> and returns 0; for every negative input, -1 among them, it prints
  \<open>Invalid Input\<close> and returns 0. In both cases the call returns normally with the
  sentinel as its value: the failure is a printed message, not a raised error. For a
  positive input it returns a value and prints nothing.
\<close>

theorem ln_nonpositive_sentinel:
  "ln_fn 0 = Some (''NOT DEFINED'', 0) \<and>
   (x < 0 \<longrightarrow> ln_fn x = Some (''Invalid Input'', 0)) \<and>
   ln_fn (- 1) = Some (''Invalid Input'', 0) \<and>
   (0 < x \<longrightarrow> (\<exists>v. ln_fn x = Some ([], v)))"
proof -
  have "\<exists>v. ln_fn x = Some ([], v)" if "0 < x"
    using ln_fn_positive [OF that] by blast
  then show ?thesis by (simp add: ln_fn_def)
qed

theorem ln_nonpositive_sentinel_witness:
  "(- 5 :: real) < 0 \<and> ln_fn (- 5) = Some (''Invalid Input'', 0) \<and>
   (0 :: real) < 4 \<and> (\<exists>v. ln_fn 4 = Some ([], v))"
proof -
  have neg: "ln_fn (- 5) = Some (''Invalid Input'', 0)"
    by (rule ln_nonpositive_sentinel [THEN conjunct2, THEN conjunct1, rule_format]) simp
  have pos: "\<exists>v. ln_fn 4 = Some ([], v)"
    by (rule ln_nonpositive_sentinel
        [THEN conjunct2, THEN conjunct2, THEN conjunct2, rule_format]) simp
  from neg pos show ?thesis by simp
qed

end
